theory Spec2Isabelle
  imports Main "HOL-Library.Word" "HOL-Library.Log_Nat"
begin

section \<open>The H02 packet decoder of gps-station\<close>

text \<open>
  A shallow embedding of \<^verbatim>\<open>protocols/h02.py\<close> (class \<^verbatim>\<open>H02\<close>) and of
  \<^verbatim>\<open>protocols/h02/packet_decoder/packet_decoder.py\<close> (class \<^verbatim>\<open>H02PacketDecoder\<close>).
  Python \<^verbatim>\<open>str\<close> values are \<^typ>\<open>string\<close> (characters are bytes, so the embedding covers
  ASCII text), Python \<^verbatim>\<open>int\<close> is \<^typ>\<open>int\<close>, and every exception the code can raise is a
  value of \<open>error\<close>, returned as \<open>Inl\<close>.
\<close>

subsection \<open>Exceptions\<close>

datatype error =
    ValueError
  | AttributeError
  | IndexError
  | ZeroDivisionError
  | BadProtocolError
  | RegExMatchError
  | UnicodeDecodeError
  | OverflowError
  | MemoryError

text \<open>Sequencing of two steps of which the first may raise.\<close>

definition and_then :: "error + 'a \<Rightarrow> ('a \<Rightarrow> error + 'b) \<Rightarrow> error + 'b" where
  "and_then r f = (case r of Inl e \<Rightarrow> Inl e | Inr x \<Rightarrow> f x)"

subsection \<open>Python's \<^verbatim>\<open>int(s, base)\<close> on ASCII text\<close>

text \<open>
  \<^verbatim>\<open>int(s, base)\<close> skips white space at both ends, reads an optional sign, for base 16 an
  optional \<^verbatim>\<open>0x\<close> or \<^verbatim>\<open>0X\<close> prefix (after which one underscore may stand), and then digits
  of the base, where single underscores may separate digits. Anything else raises
  \<^verbatim>\<open>ValueError\<close>.
\<close>

definition is_space :: "char \<Rightarrow> bool" where
  "is_space c = (c \<in> set [CHR 0x09, CHR 0x0A, CHR 0x0B, CHR 0x0C, CHR 0x0D, CHR '' ''])"

definition strip :: "string \<Rightarrow> string" where
  "strip s = rev (dropWhile is_space (rev (dropWhile is_space s)))"

definition digit_val :: "char \<Rightarrow> nat option" where
  "digit_val c =
     (let n = (of_char c :: nat) in
      if 48 \<le> n \<and> n \<le> 57 then Some (n - 48)
      else if 97 \<le> n \<and> n \<le> 122 then Some (n - 87)
      else if 65 \<le> n \<and> n \<le> 90 then Some (n - 55)
      else None)"

definition digit_in_base :: "nat \<Rightarrow> char \<Rightarrow> nat option" where
  "digit_in_base b c =
     (case digit_val c of None \<Rightarrow> None | Some d \<Rightarrow> if d < b then Some d else None)"

text \<open>
  \<open>scan_digits b after_digit acc cs\<close> reads the rest of the numeral; \<open>after_digit\<close> says
  that the previous character was a digit, which is when an underscore or the end may follow.
\<close>

fun scan_digits :: "nat \<Rightarrow> bool \<Rightarrow> nat \<Rightarrow> string \<Rightarrow> nat option" where
  "scan_digits b after_digit acc [] = (if after_digit then Some acc else None)"
| "scan_digits b after_digit acc (c # cs) =
     (if c = CHR ''_'' then (if after_digit then scan_digits b False acc cs else None)
      else case digit_in_base b c of
             None \<Rightarrow> None
           | Some d \<Rightarrow> scan_digits b True (acc * b + d) cs)"

definition split_sign :: "string \<Rightarrow> bool \<times> string" where
  "split_sign s =
     (case s of
        [] \<Rightarrow> (False, [])
      | c # r \<Rightarrow> if c = CHR ''-'' then (True, r) else if c = CHR ''+'' then (False, r) else (False, s))"

definition skip_prefix :: "nat \<Rightarrow> string \<Rightarrow> string" where
  "skip_prefix base s =
     (case s of
        c0 # c1 # r \<Rightarrow>
          if base = 16 \<and> c0 = CHR ''0'' \<and> (c1 = CHR ''x'' \<or> c1 = CHR ''X'')
          then (case r of [] \<Rightarrow> r | c2 # r' \<Rightarrow> if c2 = CHR ''_'' then r' else r)
          else s
      | _ \<Rightarrow> s)"

definition py_int :: "string \<Rightarrow> nat \<Rightarrow> error + int" where
  "py_int s base =
     (let (neg, u) = split_sign (strip s) in
      case scan_digits base False 0 (skip_prefix base u) of
        None \<Rightarrow> Inl ValueError
      | Some n \<Rightarrow> Inr (if neg then - int n else int n))"

subsection \<open>\<^verbatim>\<open>H02.get_bit_state\<close>\<close>

text \<open>
  Python's \<^verbatim>\<open>0b1 << n\<close>. A negative count raises \<^verbatim>\<open>ValueError\<close> (negative shift count).
  CPython keeps an \<^verbatim>\<open>int\<close> in digits of 30 bits and computes the size of the result before
  it shifts: one digit for the operand, \<open>n div 30\<close> digits for the whole-digit part of the
  shift and one more when \<open>n mod 30\<close> is not 0. A size above \<open>max_long_digits\<close> is refused
  with \<^verbatim>\<open>OverflowError\<close> (too many digits in integer); the value is that of a 64-bit build,
  where the largest object size is \<open>2 ^ 63 - 1\<close> bytes, the header of an \<^verbatim>\<open>int\<close> takes 24 bytes
  and a digit 4 bytes. A result whose digits cannot be allocated raises \<^verbatim>\<open>MemoryError\<close>.
  From which size on allocation fails depends on the memory of the machine. The model
  raises \<^verbatim>\<open>MemoryError\<close> where no 64-bit machine can allocate the result, which is when
  the digits alone exceed a user address space of \<open>2 ^ 47\<close> bytes; a machine with less free
  memory raises it for smaller counts already, and the properties of large shift counts
  below are therefore stated only for counts whose result takes a few hundred kilobytes
  or for counts beyond these two limits.
\<close>

definition max_long_digits :: int where
  "max_long_digits = (2 ^ 63 - 1 - 24) div 4"

definition max_alloc_digits :: int where
  "max_alloc_digits = 2 ^ 47 div 4"

definition lshift_one :: "int \<Rightarrow> error + int" where
  "lshift_one n =
     (if n < 0 then Inl ValueError
      else
        let newsize = 1 + n div 30 + (if n mod 30 = 0 then 0 else 1) in
        if max_long_digits < newsize then Inl OverflowError
        else if max_alloc_digits < newsize then Inl MemoryError
        else Inr (push_bit (nat n) 1))"

text \<open>
  \<^verbatim>\<open>byte_val = int(hex_byte, 16)\<close>, then \<^verbatim>\<open>mask = 0b1 << attribute_bit_location - 1\<close>, which
  Python reads as \<^verbatim>\<open>1 << (attribute_bit_location - 1)\<close>. The result is 1 when the masked
  bit is 0 and 0 otherwise. The code has no check of the location: what fails for a
  location is the shift.
\<close>

definition get_bit_state :: "string \<Rightarrow> int \<Rightarrow> error + int" where
  "get_bit_state hex_byte attribute_bit_location =
     and_then (py_int hex_byte 16) (\<lambda>byte_val.
     and_then (lshift_one (attribute_bit_location - 1)) (\<lambda>mask.
       if and byte_val mask = 0 then Inr 1 else Inr 0))"

text \<open>
  The byte tokens of the protocol: two hexadecimal characters, either case, and the
  8-bit value they denote.
\<close>

definition is_hex :: "char \<Rightarrow> bool" where
  "is_hex c = (c \<in> set ''0123456789abcdefABCDEF'')"

definition hex_token :: "string \<Rightarrow> bool" where
  "hex_token s = (length s = 2 \<and> list_all is_hex s)"

definition hex_val :: "char \<Rightarrow> nat" where
  "hex_val c = (case digit_val c of None \<Rightarrow> 0 | Some d \<Rightarrow> d)"

definition byte_of_token :: "string \<Rightarrow> 8 word" where
  "byte_of_token s = word_of_nat (16 * hex_val (s ! 0) + hex_val (s ! 1))"

subsection \<open>The match object and the helper \<^verbatim>\<open>get_chunks\<close>\<close>

text \<open>
  The protocol's pattern and the base class that stores its match as \<^verbatim>\<open>self.regex_match\<close> are
  not among the sources. A match is the list of its groups (group 0, the whole match, first),
  every group having taken part in the match; \<^verbatim>\<open>group(k)\<close> raises \<^verbatim>\<open>IndexError\<close> for a group
  the pattern does not have, and so does indexing a list out of range.
\<close>

type_synonym regex_match = "string list"

definition group :: "regex_match \<Rightarrow> nat \<Rightarrow> error + string" where
  "group m k = (if k < length m then Inr (m ! k) else Inl IndexError)"

definition index :: "'a list \<Rightarrow> nat \<Rightarrow> error + 'a" where
  "index xs k = (if k < length xs then Inr (xs ! k) else Inl IndexError)"

text \<open>
  Modelled from the spec: \<^verbatim>\<open>get_chunks\<close> of \<^verbatim>\<open>helpers.chunks\<close>, which is not among the sources.
  The spec has the status-bytes blob split into 2-character tokens in transmission order:
  \<open>get_chunks s n\<close> cuts \<open>s\<close> from the left into pieces of \<open>n\<close> characters, the last one
  shorter when the length is not a multiple of \<open>n\<close>.
\<close>

function get_chunks :: "string \<Rightarrow> nat \<Rightarrow> string list" where
  "get_chunks s n = (if s = [] \<or> n = 0 then [] else take n s # get_chunks (drop n s) n)"
  by pat_completeness auto
termination
  by (relation "measure (\<lambda>(s, n). length s)") auto

subsection \<open>Class \<^verbatim>\<open>H02\<close>\<close>

record H02 =
  regex_match :: regex_match
  vehicle_status_bytes :: "string list"
  vehicle_status_first_byte :: string
  vehicle_status_second_byte :: string
  vehicle_status_third_byte :: string
  vehicle_status_fourth_byte :: string
  maker :: string
  device_serial_number :: string
  time :: string
  validity :: string
  direction :: string
  mobile_country_code :: string
  mobile_network_code :: string
  local_area_code :: string
  cell_id :: string

text \<open>\<^verbatim>\<open>H02.__init__\<close>, in the order of the source's statements.\<close>

definition H02_init :: "regex_match \<Rightarrow> error + H02" where
  "H02_init m =
     and_then (group m 13) (\<lambda>blob.
     let bytes = get_chunks blob 2 in
     and_then (index bytes 0) (\<lambda>b1.
     and_then (index bytes 1) (\<lambda>b2.
     and_then (index bytes 2) (\<lambda>b3.
     and_then (index bytes 3) (\<lambda>b4.
     and_then (group m 1) (\<lambda>g1.
     and_then (group m 2) (\<lambda>g2.
     and_then (group m 4) (\<lambda>g4.
     and_then (group m 5) (\<lambda>g5.
     and_then (group m 11) (\<lambda>g11.
     and_then (group m 14) (\<lambda>g14.
     and_then (group m 15) (\<lambda>g15.
     and_then (group m 16) (\<lambda>g16.
     and_then (group m 17) (\<lambda>g17.
       Inr \<lparr> regex_match = m,
             vehicle_status_bytes = bytes,
             vehicle_status_first_byte = b1,
             vehicle_status_second_byte = b2,
             vehicle_status_third_byte = b3,
             vehicle_status_fourth_byte = b4,
             maker = g1,
             device_serial_number = g2,
             time = g4,
             validity = g5,
             direction = g11,
             mobile_country_code = g14,
             mobile_network_code = g15,
             local_area_code = g16,
             cell_id = g17 \<rparr>))))))))))))))"

text \<open>Property \<^verbatim>\<open>_acc\<close>: bit location 6 of the third status byte.\<close>

definition acc :: "H02 \<Rightarrow> error + int" where
  "acc self = get_bit_state (vehicle_status_third_byte self) 6"

subsection \<open>\<^verbatim>\<open>H02PacketDecoder.decode\<close>\<close>

text \<open>
  \<^verbatim>\<open>decode_h02_ascii_packet\<close> and \<^verbatim>\<open>decode_h02_binary_packet\<close> (module \<^verbatim>\<open>decoders\<close>) are not
  among the sources; they are parameters, each returning a location or raising. The
  \<^verbatim>\<open>except\<close> clause of the source re-raises the three exceptions it names, and any other
  exception passes through it untouched.
\<close>

definition startswith :: "string \<Rightarrow> string \<Rightarrow> bool" where
  "startswith s p = (take (length p) s = p)"

definition decode ::
  "(string \<Rightarrow> error + 'loc) \<Rightarrow> (string \<Rightarrow> error + 'loc) \<Rightarrow> string \<Rightarrow> error + 'loc" where
  "decode decode_h02_ascii_packet decode_h02_binary_packet raw_bytes =
     (case (if startswith raw_bytes ''*'' then decode_h02_ascii_packet raw_bytes
            else if startswith raw_bytes ''$'' then decode_h02_binary_packet raw_bytes
            else Inl BadProtocolError) of
        Inl e \<Rightarrow>
          if e = UnicodeDecodeError \<or> e = RegExMatchError \<or> e = BadProtocolError
          then Inl e else Inl e
      | Inr location \<Rightarrow> Inr location)"

subsection \<open>Python floats: IEEE 754 binary64\<close>

datatype pyfloat = Num bool rat | Inf bool | NaN

definition pow2 :: "int \<Rightarrow> rat" where
  "pow2 e = (if 0 \<le> e then 2 ^ nat e else 1 / 2 ^ nat (- e))"

definition round_half_even :: "rat \<Rightarrow> int" where
  "round_half_even x =
     (let f = \<lfloor>x\<rfloor>; d = x - of_int f in
      if d < 1 / 2 then f else if 1 / 2 < d then f + 1 else if even f then f else f + 1)"

definition floor_log2 :: "rat \<Rightarrow> int" where
  "floor_log2 x =
     (let (p, q) = quotient_of x; k = bitlen p - bitlen q in
      if pow2 k \<le> x then k else k - 1)"

definition round_binary64 :: "bool \<Rightarrow> rat \<Rightarrow> pyfloat" where
  "round_binary64 s a =
     (if a = 0 then Num s 0
      else
        let e = max (floor_log2 a - 52) (- 1074);
            y = of_int (round_half_even (a / pow2 e)) * pow2 e
        in if pow2 1024 \<le> y then Inf s else Num s y)"

definition float_of_rat :: "rat \<Rightarrow> pyfloat" where
  "float_of_rat x = round_binary64 (x < 0) \<bar>x\<bar>"

definition float_of_int :: "int \<Rightarrow> pyfloat" where
  "float_of_int k = float_of_rat (of_int k)"

fun fmul :: "pyfloat \<Rightarrow> pyfloat \<Rightarrow> pyfloat" where
  "fmul (Num s m) (Num t n) = round_binary64 (s \<noteq> t) (m * n)"
| "fmul (Num s m) (Inf t) = (if m = 0 then NaN else Inf (s \<noteq> t))"
| "fmul (Inf s) (Num t n) = (if n = 0 then NaN else Inf (s \<noteq> t))"
| "fmul (Inf s) (Inf t) = Inf (s \<noteq> t)"
| "fmul NaN _ = NaN"
| "fmul _ NaN = NaN"

fun fdiv :: "pyfloat \<Rightarrow> pyfloat \<Rightarrow> error + pyfloat" where
  "fdiv (Num s m) (Num t n) =
     (if n = 0 then Inl ZeroDivisionError else Inr (round_binary64 (s \<noteq> t) (m / n)))"
| "fdiv (Inf s) (Num t n) = (if n = 0 then Inl ZeroDivisionError else Inr (Inf (s \<noteq> t)))"
| "fdiv NaN (Num t n) = (if n = 0 then Inl ZeroDivisionError else Inr NaN)"
| "fdiv (Num s m) (Inf t) = Inr (Num (s \<noteq> t) 0)"
| "fdiv (Inf s) (Inf t) = Inr NaN"
| "fdiv NaN (Inf t) = Inr NaN"
| "fdiv _ NaN = Inr NaN"

fun fadd :: "pyfloat \<Rightarrow> pyfloat \<Rightarrow> pyfloat" where
  "fadd (Num s m) (Num t n) =
     (let v = (if s then - m else m) + (if t then - n else n) in
      if v = 0 then Num (s \<and> t) 0 else round_binary64 (v < 0) \<bar>v\<bar>)"
| "fadd (Num s m) (Inf t) = Inf t"
| "fadd (Inf s) (Num t n) = Inf s"
| "fadd (Inf s) (Inf t) = (if s = t then Inf s else NaN)"
| "fadd NaN _ = NaN"
| "fadd _ NaN = NaN"


subsection \<open>Python's \<^verbatim>\<open>float(s)\<close> on ASCII text\<close>

definition is_digit :: "char \<Rightarrow> bool" where
  "is_digit c = (digit_in_base 10 c \<noteq> None)"

fun underscores_ok :: "char option \<Rightarrow> string \<Rightarrow> bool" where
  "underscores_ok prev [] = (prev \<noteq> Some CHR ''_'')"
| "underscores_ok prev (c # cs) =
     ((if c = CHR ''_'' then (case prev of None \<Rightarrow> False | Some p \<Rightarrow> is_digit p)
       else (prev = Some CHR ''_'' \<longrightarrow> is_digit c))
      \<and> underscores_ok (Some c) cs)"

definition to_lower :: "char \<Rightarrow> char" where
  "to_lower c =
     (let n = (of_char c :: nat) in if 65 \<le> n \<and> n \<le> 90 then char_of (n + 32) else c)"

definition nat_of_digits :: "string \<Rightarrow> nat" where
  "nat_of_digits ds = foldl (\<lambda>a c. 10 * a + hex_val c) 0 ds"

definition pow10 :: "int \<Rightarrow> rat" where
  "pow10 e = (if 0 \<le> e then 10 ^ nat e else 1 / 10 ^ nat (- e))"

definition parse_inf_nan :: "string \<Rightarrow> pyfloat option" where
  "parse_inf_nan s =
     (let (neg, r) = split_sign s; l = map to_lower r in
      if l = ''inf'' \<or> l = ''infinity'' then Some (Inf neg)
      else if l = ''nan'' then Some NaN
      else None)"

definition parse_exponent :: "string \<Rightarrow> int option" where
  "parse_exponent s =
     (case s of
        [] \<Rightarrow> Some 0
      | c # t \<Rightarrow>
          if c = CHR ''e'' \<or> c = CHR ''E'' then
            (let (eneg, ds) = split_sign t in
             if ds \<noteq> [] \<and> list_all is_digit ds
             then Some (if eneg then - int (nat_of_digits ds) else int (nat_of_digits ds))
             else None)
          else None)"

definition parse_decimal :: "string \<Rightarrow> pyfloat option" where
  "parse_decimal s =
     (let (neg, r) = split_sign s;
          ip = takeWhile is_digit r;
          r1 = dropWhile is_digit r;
          (fp, r2) = (case r1 of
                        [] \<Rightarrow> ([], r1)
                      | c # t \<Rightarrow> if c = CHR ''.'' then (takeWhile is_digit t, dropWhile is_digit t)
                                 else ([], r1))
      in if ip = [] \<and> fp = [] then None
         else case parse_exponent r2 of
                None \<Rightarrow> None
              | Some e \<Rightarrow>
                  Some (round_binary64 neg
                          (of_nat (nat_of_digits (ip @ fp)) * pow10 (e - int (length fp)))))"

definition py_float :: "string \<Rightarrow> error + pyfloat" where
  "py_float s =
     (let t = strip s in
      if \<not> underscores_ok None t then Inl ValueError
      else
        let u = filter (\<lambda>c. c \<noteq> CHR ''_'') t in
        case parse_decimal u of
          Some x \<Rightarrow> Inr x
        | None \<Rightarrow> (case parse_inf_nan u of Some x \<Rightarrow> Inr x | None \<Rightarrow> Inl ValueError))"

subsection \<open>\<^verbatim>\<open>format(x, spec)\<close> with a fixed-point specification\<close>

definition digit_char :: "nat \<Rightarrow> char" where
  "digit_char d = char_of (48 + d)"

function digits_of_nat :: "nat \<Rightarrow> string" where
  "digits_of_nat n =
     (if n < 10 then [digit_char n] else digits_of_nat (n div 10) @ [digit_char (n mod 10)])"
  by pat_completeness auto
termination
  by (relation "measure (\<lambda>n. n)") auto

fun last_digits :: "nat \<Rightarrow> nat \<Rightarrow> string" where
  "last_digits 0 n = []"
| "last_digits (Suc k) n = last_digits k (n div 10) @ [digit_char (n mod 10)]"

definition fixed_point :: "nat \<Rightarrow> rat \<Rightarrow> string" where
  "fixed_point p m =
     (let n = nat (round_half_even (m * 10 ^ p)) in
      digits_of_nat (n div 10 ^ p) @ (if p = 0 then [] else CHR ''.'' # last_digits p n))"

definition format_f :: "nat \<Rightarrow> nat \<Rightarrow> pyfloat \<Rightarrow> string" where
  "format_f width p x =
     (let (sgn, body) =
            (case x of
               Num s m \<Rightarrow> (if s then ''-'' else [], fixed_point p m)
             | Inf s \<Rightarrow> (if s then ''-'' else [], ''inf'')
             | NaN \<Rightarrow> ([], ''nan''))
      in sgn @ replicate (width - (length sgn + length body)) CHR ''0'' @ body)"

subsection \<open>The coordinate patterns\<close>

definition re_match_coordinate :: "nat \<Rightarrow> string \<Rightarrow> (string \<times> string) option" where
  "re_match_coordinate n s =
     (let (sgn, r) = (case s of
                        [] \<Rightarrow> ([], s)
                      | c # t \<Rightarrow> if c = CHR ''-'' then (''-'', t) else ([], s));
          d = take n r;
          m = take 7 (drop n r)
      in if length d = n \<and> list_all is_digit d \<and> length m = 7
            \<and> is_digit (m ! 0) \<and> is_digit (m ! 1) \<and> m ! 2 \<noteq> CHR 0x0A
            \<and> is_digit (m ! 3) \<and> is_digit (m ! 4) \<and> is_digit (m ! 5) \<and> is_digit (m ! 6)
         then Some (sgn @ d, m) else None)"

definition decimal_degrees :: "nat \<Rightarrow> string \<Rightarrow> error + pyfloat" where
  "decimal_degrees n raw =
     (case re_match_coordinate n raw of
        None \<Rightarrow> Inl AttributeError
      | Some (g1, g2) \<Rightarrow>
          and_then (py_int g1 10) (\<lambda>degrees.
          and_then (py_float g2) (\<lambda>minutes.
          and_then (fdiv minutes (float_of_int 60)) (\<lambda>quotient.
            let result = fadd (float_of_int degrees) quotient;
                result_formatted = format_f 0 6 result
            in py_float result_formatted))))"

definition latitude :: "H02 \<Rightarrow> error + pyfloat" where
  "latitude self = and_then (group (regex_match self) 6) (decimal_degrees 2)"

definition longitude :: "H02 \<Rightarrow> error + pyfloat" where
  "longitude self = and_then (group (regex_match self) 8) (decimal_degrees 3)"

definition speed_kmh :: "string \<Rightarrow> error + pyfloat" where
  "speed_kmh raw_speed =
     and_then (py_float raw_speed) (\<lambda>knots.
       let kmh = fmul knots (float_of_rat (1852 / 1000));
           kmh_formatted = format_f 5 2 kmh
       in py_float kmh_formatted)"

definition speed :: "H02 \<Rightarrow> error + pyfloat" where
  "speed self = and_then (group (regex_match self) 10) speed_kmh"

(*THEOREMS*)

section \<open>Properties\<close>

subsection \<open>Reading a status bit\<close>

lemma is_hex_props:
  assumes "is_hex c"
  shows "\<not> is_space c" "c \<noteq> CHR ''-''" "c \<noteq> CHR ''+''" "c \<noteq> CHR ''_''"
    "c \<noteq> CHR ''x''" "c \<noteq> CHR ''X''"
    "digit_in_base 16 c = Some (hex_val c)" "hex_val c < 16"
  using assms
  by (auto simp: is_hex_def is_space_def digit_in_base_def digit_val_def hex_val_def)

lemma strip_hex2: "is_hex a \<Longrightarrow> is_hex b \<Longrightarrow> strip [a, b] = [a, b]"
  by (simp add: strip_def is_hex_props)

lemma py_int_hex_token:
  assumes "hex_token s"
  shows "py_int s 16 = Inr (int (16 * hex_val (s ! 0) + hex_val (s ! 1)))"
proof -
  from assms obtain a b where s: "s = [a, b]" and a: "is_hex a" and b: "is_hex b"
    by (cases s; cases "tl s") (auto simp: hex_token_def)
  have "split_sign [a, b] = (False, [a, b])"
    using a by (simp add: split_sign_def is_hex_props)
  moreover have "skip_prefix 16 [a, b] = [a, b]"
    using b by (simp add: skip_prefix_def is_hex_props)
  moreover have "scan_digits 16 False 0 [a, b] = Some (16 * hex_val a + hex_val b)"
    using a b by (simp add: is_hex_props mult.commute)
  ultimately show ?thesis
    using a b by (simp add: py_int_def strip_hex2 s)
qed

lemma byte_value_bound:
  assumes "hex_token s"
  shows "16 * hex_val (s ! 0) + hex_val (s ! 1) < 256"
proof -
  from assms have "is_hex (s ! 0)" "is_hex (s ! 1)"
    by (auto simp: hex_token_def list_all_length)
  then have "hex_val (s ! 0) < 16" "hex_val (s ! 1) < 16"
    by (simp_all add: is_hex_props)
  then show ?thesis by simp
qed

lemma bit_byte_of_token:
  assumes "n < 8"
  shows "bit (byte_of_token s) n = bit (int (16 * hex_val (s ! 0) + hex_val (s ! 1))) n"
  using assms unfolding byte_of_token_def
  by (simp only: bit_of_nat_iff bit_of_nat_iff_bit) simp

lemma high_bit_clear:
  assumes "v < 256" "8 \<le> n"
  shows "\<not> bit (int v) n"
proof -
  have "int v < 2 ^ 8" using assms(1) by simp
  also have "\<dots> \<le> 2 ^ n" using assms(2) by (intro power_increasing) simp_all
  finally have "int v < 2 ^ n" .
  then show ?thesis
    by (simp add: bit_iff_odd)
qed

lemma lshift_one_small:
  assumes "0 \<le> n" and "n \<le> 1000000"
  shows "lshift_one n = Inr (push_bit (nat n) 1)"
proof -
  have "n div 30 \<le> 1000000 div 30" using assms(2) by (rule zdiv_mono1) simp
  then have "1 + n div 30 + (if n mod 30 = 0 then 0 else 1) \<le> 33335" by simp
  then show ?thesis
    using assms(1) by (simp add: lshift_one_def max_long_digits_def max_alloc_digits_def Let_def)
qed

lemma lshift_one_negative: "n < 0 \<Longrightarrow> lshift_one n = Inl ValueError"
  by (simp add: lshift_one_def)

lemma get_bit_state_in_range:
  assumes "hex_token tok" and "1 \<le> pos" and "pos \<le> 8"
  shows "get_bit_state tok pos = Inr (if bit (byte_of_token tok) (nat (pos - 1)) then 0 else 1)"
proof -
  have n: "nat (pos - 1) < 8" using assms(2,3) by simp
  have "bit (byte_of_token tok) (nat (pos - 1))
      = (and (int (16 * hex_val (tok ! 0) + hex_val (tok ! 1))) (push_bit (nat (pos - 1)) 1) \<noteq> 0)"
    using bit_byte_of_token [OF n] by (simp add: bit_iff_and_push_bit_not_eq_0)
  moreover have "lshift_one (pos - 1) = Inr (push_bit (nat (pos - 1)) 1)"
    using assms(2,3) by (intro lshift_one_small) simp_all
  ultimately show ?thesis
    by (simp add: get_bit_state_def and_then_def py_int_hex_token [OF assms(1)])
qed

text \<open>
  C1. For a token of two hexadecimal characters and a bit location from 1 to 8,
  \<open>get_bit_state\<close> returns 0 (inactive) exactly when the bit of the token's 8-bit value at
  that location is 1, and 1 (active) exactly when it is 0. Location 1 is the least
  significant bit and location 8 the most significant: the bit at location \<open>pos\<close> is the
  parity of the value divided by \<open>2 ^ (pos - 1)\<close>.
\<close>

theorem get_bit_state_negative_logic:
  assumes "hex_token tok" and "1 \<le> pos" and "pos \<le> 8"
  shows "get_bit_state tok pos = Inr (if bit (byte_of_token tok) (nat (pos - 1)) then 0 else 1)
       \<and> bit (byte_of_token tok) (nat (pos - 1)) =
           odd (unat (byte_of_token tok) div 2 ^ nat (pos - 1))"
proof -
  have "get_bit_state tok pos = Inr (if bit (byte_of_token tok) (nat (pos - 1)) then 0 else 1)"
    using assms by (rule get_bit_state_in_range)
  moreover have "bit (byte_of_token tok) (nat (pos - 1)) =
           odd (unat (byte_of_token tok) div 2 ^ nat (pos - 1))"
  proof -
    have "bit (unat (byte_of_token tok)) (nat (pos - 1)) = bit (byte_of_token tok) (nat (pos - 1))"
      by (simp add: bit_unsigned_iff)
    then show ?thesis
      using bit_iff_odd [of "unat (byte_of_token tok)" "nat (pos - 1)"] by simp
  qed
  ultimately show ?thesis by simp
qed

theorem get_bit_state_negative_logic_witness:
  "hex_token ''9F'' \<and> (1::int) \<le> 6 \<and> (6::int) \<le> 8
   \<and> get_bit_state ''9F'' 6 = Inr 1 \<and> \<not> bit (byte_of_token ''9F'') 5
   \<and> get_bit_state ''9F'' 5 = Inr 0 \<and> bit (byte_of_token ''9F'') 4"
  using get_bit_state_negative_logic [of "''9F''" 6] get_bit_state_negative_logic [of "''9F''" 5]
  by (simp add: hex_token_def is_hex_def byte_of_token_def hex_val_def digit_val_def bit_iff_odd)

text \<open>
  C5, as the code has it. The claim asks for an error at every location outside 1 to 8.
  The code has no range check: location 9 gives the mask 256, above the byte, and the
  read of the token \<open>FF\<close> returns 1 without an error.
\<close>

theorem get_bit_state_location_9_no_error: "get_bit_state ''FF'' 9 = Inr 1"
  by (simp add: get_bit_state_def and_then_def py_int_def strip_def is_space_def
      split_sign_def skip_prefix_def digit_in_base_def digit_val_def
      lshift_one_def max_long_digits_def max_alloc_digits_def)

text \<open>
  C5, amended. For a token of two hexadecimal characters and a bit location below 1
  (0 and -1 among them), \<open>get_bit_state\<close> fails: the shift count is negative and Python
  raises \<^verbatim>\<open>ValueError\<close>.
\<close>

theorem get_bit_state_below_range:
  assumes "hex_token tok" and "pos < 1"
  shows "get_bit_state tok pos = Inl ValueError"
  using assms(2)
  by (simp add: get_bit_state_def and_then_def py_int_hex_token [OF assms(1)] lshift_one_negative)

theorem get_bit_state_below_range_witness:
  "hex_token ''FF'' \<and> (0::int) < 1 \<and> (-1::int) < 1
   \<and> get_bit_state ''FF'' 0 = Inl ValueError \<and> get_bit_state ''FF'' (-1) = Inl ValueError"
  using get_bit_state_below_range [of "''FF''" 0] get_bit_state_below_range [of "''FF''" "-1"]
  by (simp add: hex_token_def is_hex_def)

text \<open>
  C9, as the code has it. The claim has every location of 9 or more return 1 without an
  error. The mask of a location is \<open>1 << (location - 1)\<close>, and for the location \<open>2 ^ 70\<close> the
  shift raises \<^verbatim>\<open>OverflowError\<close>: the mask would have more digits than an \<^verbatim>\<open>int\<close> can have.
\<close>

theorem get_bit_state_huge_location_overflow:
  "get_bit_state ''FF'' 1180591620717411303424 = Inl OverflowError"
  by (simp add: get_bit_state_def and_then_def py_int_def strip_def is_space_def
      split_sign_def skip_prefix_def digit_in_base_def digit_val_def
      lshift_one_def max_long_digits_def)

text \<open>
  C9, amended. For a token of two hexadecimal characters and a bit location from 9 to
  1000000, \<open>get_bit_state\<close> raises no error and returns 1: the mask lies above the 8-bit
  value, the masked value is 0, and the negative-logic branch reports the attribute as
  active.
\<close>

theorem get_bit_state_above_range:
  assumes "hex_token tok" and "9 \<le> pos" and "pos \<le> 1000000"
  shows "get_bit_state tok pos = Inr 1"
proof -
  have "\<not> bit (int (16 * hex_val (tok ! 0) + hex_val (tok ! 1))) (nat (pos - 1))"
    using byte_value_bound [OF assms(1)] assms(2) by (intro high_bit_clear) simp_all
  then have "and (int (16 * hex_val (tok ! 0) + hex_val (tok ! 1))) (push_bit (nat (pos - 1)) 1) = 0"
    by (simp add: bit_iff_and_push_bit_not_eq_0)
  moreover have "lshift_one (pos - 1) = Inr (push_bit (nat (pos - 1)) 1)"
    using assms(2,3) by (intro lshift_one_small) simp_all
  ultimately show ?thesis
    by (simp add: get_bit_state_def and_then_def py_int_hex_token [OF assms(1)])
qed

theorem get_bit_state_above_range_witness:
  "hex_token ''FF'' \<and> (9::int) \<le> 12 \<and> (12::int) \<le> 1000000
   \<and> get_bit_state ''FF'' 12 = Inr 1 \<and> get_bit_state ''FF'' 1000000 = Inr 1
   \<and> get_bit_state ''FF'' 8 = Inr 0"
proof -
  have h: "hex_token ''FF''"
    by (simp add: hex_token_def is_hex_def)
  have in_range: "get_bit_state ''FF'' 8 = Inr 0"
    by (simp add: get_bit_state_def and_then_def py_int_def strip_def
        is_space_def split_sign_def skip_prefix_def digit_in_base_def digit_val_def
        lshift_one_def max_long_digits_def max_alloc_digits_def)
  show ?thesis
    using get_bit_state_above_range [OF h, of 12] get_bit_state_above_range [OF h, of 1000000]
      h in_range
    by simp
qed

subsection \<open>Frame dispatch\<close>

lemma decode_eq:
  "decode a b raw =
     (if startswith raw ''*'' then a raw else if startswith raw ''$'' then b raw
      else Inl BadProtocolError)"
  by (simp add: decode_def split: sum.splits)

lemma startswith_single: "startswith raw [c] = (raw \<noteq> [] \<and> hd raw = c)"
  by (cases raw) (simp_all add: startswith_def)

text \<open>
  C4. A transmission that is empty or whose first byte is neither \<open>*\<close> nor \<open>$\<close> makes
  \<open>decode\<close> fail with \<^verbatim>\<open>BadProtocolError\<close> (the spec's unsupported-frame error), so that no
  location, partial or not, is returned; a first byte \<open>*\<close> hands the transmission to the
  ASCII decoder and a first byte \<open>$\<close> to the binary decoder, whose outcome is the outcome
  of \<open>decode\<close>.
\<close>

theorem decode_dispatch:
  "((raw = [] \<or> (hd raw \<noteq> CHR ''*'' \<and> hd raw \<noteq> CHR ''$'')) \<longrightarrow>
      decode ascii binary raw = Inl BadProtocolError \<and> (\<forall>loc. decode ascii binary raw \<noteq> Inr loc))
   \<and> (raw \<noteq> [] \<and> hd raw = CHR ''*'' \<longrightarrow> decode ascii binary raw = ascii raw)
   \<and> (raw \<noteq> [] \<and> hd raw = CHR ''$'' \<longrightarrow> decode ascii binary raw = binary raw)"
  by (auto simp: decode_eq startswith_single)

theorem decode_dispatch_witness:
  "decode (\<lambda>r. Inr (''ascii'', r)) (\<lambda>r. Inr (''binary'', r)) ''#garbage'' = Inl BadProtocolError
   \<and> decode (\<lambda>r. Inr (''ascii'', r)) (\<lambda>r. Inr (''binary'', r)) [] = Inl BadProtocolError
   \<and> decode (\<lambda>r. Inr (''ascii'', r)) (\<lambda>r. Inr (''binary'', r)) ''*HQ'' = Inr (''ascii'', ''*HQ'')
   \<and> decode (\<lambda>r. Inr (''ascii'', r)) (\<lambda>r. Inr (''binary'', r)) ''$HQ'' = Inr (''binary'', ''$HQ'')"
  using decode_dispatch [of "''#garbage''" "\<lambda>r. Inr (''ascii'', r)" "\<lambda>r. Inr (''binary'', r)"]
    decode_dispatch [of "[]" "\<lambda>r. Inr (''ascii'', r)" "\<lambda>r. Inr (''binary'', r)"]
    decode_dispatch [of "''*HQ''" "\<lambda>r. Inr (''ascii'', r)" "\<lambda>r. Inr (''binary'', r)"]
    decode_dispatch [of "''$HQ''" "\<lambda>r. Inr (''ascii'', r)" "\<lambda>r. Inr (''binary'', r)"]
  by simp

subsection \<open>Status bytes and the ACC state\<close>

lemma list8:
  assumes "length (xs :: 'a list) = 8"
  obtains a b c d e f g h where "xs = [a, b, c, d, e, f, g, h]"
proof -
  from assms obtain a b c d e f g h where "xs = [a, b, c, d, e, f, g, h]"
    by (auto simp: length_Suc_conv eval_nat_numeral)
  then show ?thesis using that by blast
qed

lemma get_chunks_8:
  "get_chunks [a, b, c, d, e, f, g, h] 2 = [[a, b], [c, d], [e, f], [g, h]]"
  by (simp add: get_chunks.simps)

text \<open>
  C7. For a match whose group 13 is a blob of 8 hexadecimal characters (and which has the
  17 groups that \<^verbatim>\<open>__init__\<close> reads), the constructor succeeds, the blob is split into
  exactly four tokens of two characters each, in the order of transmission, and the ACC
  state is the negative-logic bit read of the third token: bit location 6 of that token,
  1 when the bit is clear and 0 when it is set.
\<close>

theorem status_bytes_split_and_acc:
  assumes "18 \<le> length m" and "m ! 13 = blob" and "length blob = 8" and "list_all is_hex blob"
  shows "\<exists>self. H02_init m = Inr self
           \<and> vehicle_status_bytes self =
               [take 2 blob, take 2 (drop 2 blob), take 2 (drop 4 blob), take 2 (drop 6 blob)]
           \<and> concat (vehicle_status_bytes self) = blob
           \<and> list_all hex_token (vehicle_status_bytes self)
           \<and> vehicle_status_third_byte self = vehicle_status_bytes self ! 2
           \<and> acc self = get_bit_state (vehicle_status_bytes self ! 2) 6
           \<and> acc self = Inr (if bit (byte_of_token (vehicle_status_bytes self ! 2)) 5 then 0 else 1)"
proof -
  from assms(3) obtain a b c d e f g h where blob: "blob = [a, b, c, d, e, f, g, h]"
    by (rule list8)
  let ?bytes = "[[a, b], [c, d], [e, f], [g, h]]"
  have groups: "group m k = Inr (m ! k)" if "k < 18" for k
    using that assms(1) by (simp add: group_def)
  define self where "self =
    \<lparr> regex_match = m, vehicle_status_bytes = ?bytes,
      vehicle_status_first_byte = [a, b], vehicle_status_second_byte = [c, d],
      vehicle_status_third_byte = [e, f], vehicle_status_fourth_byte = [g, h],
      maker = m ! 1, device_serial_number = m ! 2, time = m ! 4, validity = m ! 5,
      direction = m ! 11, mobile_country_code = m ! 14, mobile_network_code = m ! 15,
      local_area_code = m ! 16, cell_id = m ! 17 \<rparr>"
  have init: "H02_init m = Inr self"
    by (simp add: H02_init_def and_then_def groups assms(2) blob get_chunks_8 index_def self_def)
  have third: "hex_token [e, f]"
    using assms(4) by (simp add: blob hex_token_def)
  have "get_bit_state [e, f] 6 = Inr (if bit (byte_of_token [e, f]) 5 then 0 else 1)"
    using get_bit_state_in_range [OF third, of 6] by simp
  then have "acc self = Inr (if bit (byte_of_token (vehicle_status_bytes self ! 2)) 5 then 0 else 1)"
    by (simp add: acc_def self_def)
  moreover have "acc self = get_bit_state (vehicle_status_bytes self ! 2) 6"
    by (simp add: acc_def self_def)
  moreover have "list_all hex_token (vehicle_status_bytes self)"
    using assms(4) by (simp add: blob hex_token_def self_def)
  moreover have "vehicle_status_bytes self =
      [take 2 blob, take 2 (drop 2 blob), take 2 (drop 4 blob), take 2 (drop 6 blob)]"
    by (simp add: blob self_def)
  moreover have "concat (vehicle_status_bytes self) = blob"
    by (simp add: blob self_def)
  moreover have "vehicle_status_third_byte self = vehicle_status_bytes self ! 2"
    by (simp add: self_def)
  ultimately show ?thesis using init by blast
qed

theorem status_bytes_split_and_acc_witness:
  "\<exists>self. H02_init (replicate 13 ''x'' @ [''FFFF9FFF'', ''282'', ''02'', ''abc'', ''def'']) = Inr self
     \<and> vehicle_status_bytes self = [''FF'', ''FF'', ''9F'', ''FF'']
     \<and> acc self = get_bit_state ''9F'' 6
     \<and> acc self = Inr 1"
proof -
  let ?m = "replicate 13 ''x'' @ [''FFFF9FFF'', ''282'', ''02'', ''abc'', ''def'']"
  have h: "18 \<le> length ?m" "?m ! 13 = ''FFFF9FFF''" "length ''FFFF9FFF'' = 8"
    "list_all is_hex ''FFFF9FFF''"
    by (simp_all add: nth_append is_hex_def)
  have b: "\<not> bit (byte_of_token ''9F'') 5"
    by (simp add: byte_of_token_def hex_val_def digit_val_def bit_iff_odd)
  from status_bytes_split_and_acc [OF h] obtain self where
    "H02_init ?m = Inr self"
    "vehicle_status_bytes self = [''FF'', ''FF'', ''9F'', ''FF'']"
    "acc self = get_bit_state (vehicle_status_bytes self ! 2) 6"
    "acc self = Inr (if bit (byte_of_token (vehicle_status_bytes self ! 2)) 5 then 0 else 1)"
    by auto
  then show ?thesis using b by auto
qed

subsection \<open>Rounding to binary64\<close>

lemma pow2_powi: "pow2 e = 2 powi e"
  unfolding pow2_def power_int_def by (simp add: power_one_over inverse_eq_divide)

lemma pow2_pos: "0 < pow2 e"
  by (simp add: pow2_powi)

lemma pow2_add: "pow2 (a + b) = pow2 a * pow2 b"
  by (simp add: pow2_powi power_int_add)

lemma pow2_mono: "a \<le> b \<Longrightarrow> pow2 a \<le> pow2 b"
  by (simp add: pow2_powi power_int_increasing)

lemma pow2_nat: "pow2 (int n) = 2 ^ n"
  by (simp add: pow2_def)

lemma floor_log2_bounds:
  assumes "0 < x"
  shows "pow2 (floor_log2 x) \<le> x \<and> x < pow2 (floor_log2 x + 1)"
proof -
  obtain p q where pq: "quotient_of x = (p, q)" by (cases "quotient_of x")
  then have q: "0 < q" and x: "x = of_int p / of_int q"
    using quotient_of_denom_pos quotient_of_div by auto
  have p: "0 < p" using assms q x by (simp add: zero_less_divide_iff)
  define k where "k = bitlen p - bitlen q"
  have bp: "2 ^ nat (bitlen p - 1) \<le> p" "p < 2 ^ nat (bitlen p)"
    using bitlen_bounds [OF p] by auto
  have bq: "2 ^ nat (bitlen q - 1) \<le> q" "q < 2 ^ nat (bitlen q)"
    using bitlen_bounds [OF q] by auto
  have lp: "1 \<le> bitlen p" using p bitlen_eq_zero_iff [of p] bitlen_nonneg [of p] by linarith
  have lq: "1 \<le> bitlen q" using q bitlen_eq_zero_iff [of q] bitlen_nonneg [of q] by linarith
  have P1: "pow2 (bitlen p - 1) \<le> of_int p"
  proof -
    have "(of_int (2 ^ nat (bitlen p - 1)) :: rat) \<le> of_int p" using bp(1) by (simp only: of_int_le_iff)
    then show ?thesis using lp by (simp add: pow2_def)
  qed
  have P2: "of_int p < pow2 (bitlen p)"
  proof -
    have "(of_int p :: rat) < of_int (2 ^ nat (bitlen p))" using bp(2) by (simp only: of_int_less_iff)
    then show ?thesis using lp by (simp add: pow2_def)
  qed
  have Q1: "pow2 (bitlen q - 1) \<le> of_int q"
  proof -
    have "(of_int (2 ^ nat (bitlen q - 1)) :: rat) \<le> of_int q" using bq(1) by (simp only: of_int_le_iff)
    then show ?thesis using lq by (simp add: pow2_def)
  qed
  have Q2: "of_int q < pow2 (bitlen q)"
  proof -
    have "(of_int q :: rat) < of_int (2 ^ nat (bitlen q))" using bq(2) by (simp only: of_int_less_iff)
    then show ?thesis using lq by (simp add: pow2_def)
  qed
  have qpos: "(0::rat) < of_int q" using q by simp
  have lower: "pow2 (k - 1) < x"
  proof -
    have "pow2 (k - 1) * of_int q < pow2 (k - 1) * pow2 (bitlen q)"
      using Q2 pow2_pos by (simp add: mult_strict_left_mono)
    also have "\<dots> = pow2 (bitlen p - 1)"
      unfolding k_def pow2_add [symmetric] by (simp add: algebra_simps)
    also have "\<dots> \<le> of_int p" by (rule P1)
    finally show ?thesis using qpos by (simp add: x pos_less_divide_eq)
  qed
  have upper: "x < pow2 (k + 1)"
  proof -
    have "of_int p < pow2 (bitlen p)" by (rule P2)
    also have "\<dots> = pow2 (k + 1) * pow2 (bitlen q - 1)"
      unfolding k_def pow2_add [symmetric] by (simp add: algebra_simps)
    also have "\<dots> \<le> pow2 (k + 1) * of_int q"
      using Q1 pow2_pos [of "k + 1"] by (simp add: mult_left_mono)
    finally show ?thesis using qpos by (simp add: x pos_divide_less_eq)
  qed
  have fl: "floor_log2 x = (if pow2 k \<le> x then k else k - 1)"
    by (simp add: floor_log2_def pq k_def Let_def)
  show ?thesis
  proof (cases "pow2 k \<le> x")
    case True
    then show ?thesis using upper fl by simp
  next
    case False
    then show ?thesis using lower fl by simp
  qed
qed

lemma pow2_strict_mono: "a < b \<Longrightarrow> pow2 a < pow2 b"
  by (simp add: pow2_powi power_int_strict_increasing)

lemma pow2_less_cancel: "pow2 a < pow2 b \<Longrightarrow> a < b"
  using pow2_mono [of b a] by (cases "a < b") auto

lemma pow2_diff: "pow2 (a - b) = pow2 a / pow2 b"
  by (simp add: pow2_powi power_int_diff)

lemma pow2_half: "pow2 e / 2 = pow2 (e - 1)"
  using pow2_diff [of e 1] by (simp add: pow2_def)

lemma round_half_even_near: "\<bar>of_int (round_half_even x) - x\<bar> \<le> 1 / 2"
proof -
  have "of_int \<lfloor>x\<rfloor> \<le> x" "x < of_int \<lfloor>x\<rfloor> + 1" by linarith+
  then show ?thesis
    by (auto simp: round_half_even_def Let_def)
qed

lemma round_half_even_low:
  "x - of_int \<lfloor>x\<rfloor> < 1 / 2 \<Longrightarrow> round_half_even x = \<lfloor>x\<rfloor>"
  by (simp add: round_half_even_def Let_def)

lemma round_half_even_high:
  "1 / 2 < x - of_int \<lfloor>x\<rfloor> \<Longrightarrow> round_half_even x = \<lfloor>x\<rfloor> + 1"
  by (simp add: round_half_even_def Let_def)

lemma round_half_even_unique:
  assumes "\<bar>x - of_int n\<bar> < 1 / 2"
  shows "round_half_even x = n"
proof -
  have "of_int n - 1 \<le> x" using assms by linarith
  then have "of_int (n - 1) \<le> x" by simp
  then have l: "n - 1 \<le> \<lfloor>x\<rfloor>" by (simp only: le_floor_iff)
  have "x < of_int n + 1" using assms by linarith
  then have "x < of_int (n + 1)" by simp
  then have u: "\<lfloor>x\<rfloor> < n + 1" by (simp only: floor_less_iff)
  from l u consider "\<lfloor>x\<rfloor> = n" | "\<lfloor>x\<rfloor> = n - 1" by linarith
  then show ?thesis
  proof cases
    case 1
    have "x - of_int n < 1 / 2" using assms by linarith
    then have "x - of_int \<lfloor>x\<rfloor> < 1 / 2" by (simp only: 1)
    then show ?thesis using 1 by (simp only: round_half_even_low)
  next
    case 2
    have "1 / 2 < x - (of_int n - 1)" using assms by linarith
    then have "1 / 2 < x - of_int (n - 1)" by simp
    then have "1 / 2 < x - of_int \<lfloor>x\<rfloor>" by (simp only: 2)
    then have "round_half_even x = \<lfloor>x\<rfloor> + 1" by (rule round_half_even_high)
    then show ?thesis using 2 by simp
  qed
qed

lemma round_half_even_of_int: "round_half_even (of_int n) = n"
  by (rule round_half_even_unique) simp

lemma round_half_even_nonneg: "0 \<le> x \<Longrightarrow> 0 \<le> round_half_even x"
  by (auto simp: round_half_even_def Let_def)

lemma round_half_even_le_int:
  assumes "x \<le> of_int n"
  shows "round_half_even x \<le> n"
proof (cases "x = of_int n")
  case True
  then show ?thesis by (simp add: round_half_even_of_int)
next
  case False
  then have "x < of_int n" using assms by simp
  then have f: "\<lfloor>x\<rfloor> < n" by (simp only: floor_less_iff)
  have "round_half_even x \<le> \<lfloor>x\<rfloor> + 1"
    by (simp add: round_half_even_def Let_def)
  then show ?thesis using f by linarith
qed

lemma round_binary64_bounds:
  assumes a: "0 < a" "a < pow2 K" and K: "- 1021 \<le> K" "K \<le> 1023"
  shows "\<exists>y. round_binary64 s a = Num s y \<and> \<bar>y - a\<bar> \<le> pow2 (K - 54) \<and> 0 \<le> y \<and> y \<le> pow2 K"
proof -
  define fl where "fl = floor_log2 a"
  define e where "e = max (fl - 52) (- 1074)"
  define r where "r = round_half_even (a / pow2 e)"
  define y where "y = of_int r * pow2 e"
  have "pow2 fl \<le> a" using floor_log2_bounds [OF a(1)] by (simp add: fl_def)
  then have "pow2 fl < pow2 K" using a(2) by simp
  then have "fl < K" by (rule pow2_less_cancel)
  then have e: "e \<le> K - 53" using K(1) by (simp add: e_def)
  have pe: "0 < pow2 e" by (rule pow2_pos)
  have "\<bar>of_int r - a / pow2 e\<bar> \<le> 1 / 2"
    unfolding r_def by (rule round_half_even_near)
  then have "\<bar>of_int r - a / pow2 e\<bar> * pow2 e \<le> 1 / 2 * pow2 e"
    using pe by (simp only: mult_le_cancel_right) simp
  moreover have "\<bar>of_int r - a / pow2 e\<bar> * pow2 e = \<bar>y - a\<bar>"
  proof -
    have "\<bar>of_int r - a / pow2 e\<bar> * pow2 e = \<bar>(of_int r - a / pow2 e) * pow2 e\<bar>"
      using pe by (simp add: abs_mult)
    also have "(of_int r - a / pow2 e) * pow2 e = y - a"
      using pe by (simp add: y_def algebra_simps)
    finally show ?thesis .
  qed
  ultimately have "\<bar>y - a\<bar> \<le> pow2 e / 2" by simp
  also have "\<dots> = pow2 (e - 1)" by (rule pow2_half)
  also have "\<dots> \<le> pow2 (K - 54)" using e by (intro pow2_mono) simp
  finally have err: "\<bar>y - a\<bar> \<le> pow2 (K - 54)" .
  have "0 \<le> a / pow2 e" using a(1) pe by simp
  then have "0 \<le> r" unfolding r_def by (rule round_half_even_nonneg)
  then have y0: "0 \<le> y" using pe by (simp add: y_def)
  have "a / pow2 e < pow2 K / pow2 e" using a(2) pe by (simp add: divide_strict_right_mono)
  also have "\<dots> = pow2 (K - e)" by (simp add: pow2_diff)
  also have "\<dots> = of_int (2 ^ nat (K - e))" using e by (simp add: pow2_def)
  finally have "r \<le> 2 ^ nat (K - e)"
    unfolding r_def by (intro round_half_even_le_int) simp
  then have "(of_int r :: rat) \<le> of_int (2 ^ nat (K - e))" by (simp only: of_int_le_iff)
  also have "(of_int (2 ^ nat (K - e)) :: rat) = pow2 (K - e)" using e by (simp add: pow2_def)
  finally have "of_int r * pow2 e \<le> pow2 (K - e) * pow2 e"
    using pe by (simp only: mult_le_cancel_right) simp
  also have "\<dots> = pow2 K" by (simp add: pow2_add [symmetric])
  finally have yK: "y \<le> pow2 K" by (simp add: y_def)
  have "pow2 K < pow2 1024" using K(2) by (intro pow2_strict_mono) simp
  then have "\<not> pow2 1024 \<le> y" using yK by simp
  then have "round_binary64 s a = Num s y"
    using a(1) by (simp add: round_binary64_def Let_def fl_def [symmetric] e_def [symmetric]
        r_def [symmetric] y_def [symmetric])
  then show ?thesis using err y0 yK by blast
qed

subsection \<open>Decimal numerals\<close>

lemma is_digit_props:
  assumes "is_digit c"
  shows "\<not> is_space c" "c \<noteq> CHR ''-''" "c \<noteq> CHR ''+''" "c \<noteq> CHR ''_''" "c \<noteq> CHR ''.''"
    "digit_in_base 10 c = Some (hex_val c)" "hex_val c < 10"
  using assms
  by (auto simp: is_digit_def is_space_def digit_in_base_def digit_val_def hex_val_def Let_def
      split: if_splits option.splits)

lemma strip_id:
  assumes "s \<noteq> []" and "\<not> is_space (hd s)" and "\<not> is_space (last s)"
  shows "strip s = s"
proof -
  have "dropWhile is_space s = s"
    using assms(1,2) by (cases s) simp_all
  moreover have "dropWhile is_space (rev s) = rev s"
    using assms(1,3) by (cases "rev s") (simp_all add: hd_rev [symmetric])
  ultimately show ?thesis by (simp add: strip_def)
qed

lemma underscores_ok_plain:
  "CHR ''_'' \<notin> set t \<Longrightarrow> prev \<noteq> Some CHR ''_'' \<Longrightarrow> underscores_ok prev t"
  by (induction t arbitrary: prev) auto

lemma foldl_digits:
  "foldl (\<lambda>a c. 10 * a + hex_val c) a ds
     = a * 10 ^ length ds + foldl (\<lambda>a c. 10 * a + hex_val c) 0 ds"
proof (induction ds arbitrary: a)
  case Nil
  then show ?case by simp
next
  case (Cons c cs)
  show ?case
    using Cons.IH [of "10 * a + hex_val c"] Cons.IH [of "hex_val c"]
    by (simp add: algebra_simps)
qed

lemma nat_of_digits_Nil: "nat_of_digits [] = 0"
  by (simp add: nat_of_digits_def)

lemma nat_of_digits_append:
  "nat_of_digits (xs @ ys) = nat_of_digits xs * 10 ^ length ys + nat_of_digits ys"
  unfolding nat_of_digits_def using foldl_digits [of "foldl (\<lambda>a c. 10 * a + hex_val c) 0 xs" ys]
  by simp

lemma nat_of_digits_single: "nat_of_digits [c] = hex_val c"
  by (simp add: nat_of_digits_def)

lemma nat_of_digits_bound:
  "list_all is_digit ds \<Longrightarrow> nat_of_digits ds < 10 ^ length ds"
proof (induction ds rule: rev_induct)
  case Nil
  then show ?case by (simp add: nat_of_digits_Nil)
next
  case (snoc c cs)
  then have "nat_of_digits cs < 10 ^ length cs" and "hex_val c < 10"
    by (simp_all add: is_digit_props)
  then have "nat_of_digits cs * 10 + hex_val c < 10 ^ length cs * 10"
    by linarith
  then show ?case
    by (simp add: nat_of_digits_append nat_of_digits_single)
qed

lemma scan_digits_decimal:
  "list_all is_digit ds \<Longrightarrow> ds \<noteq> [] \<or> b \<Longrightarrow>
     scan_digits 10 b a ds = Some (a * 10 ^ length ds + nat_of_digits ds)"
proof (induction ds arbitrary: b a)
  case Nil
  then show ?case by (simp add: nat_of_digits_Nil)
next
  case (Cons c cs)
  then have c: "is_digit c" and cs: "list_all is_digit cs" by simp_all
  have "scan_digits 10 b a (c # cs) = scan_digits 10 True (a * 10 + hex_val c) cs"
    using c by (simp add: is_digit_props)
  also have "\<dots> = Some ((a * 10 + hex_val c) * 10 ^ length cs + nat_of_digits cs)"
    using Cons.IH [OF cs, of True] by simp
  also have "(a * 10 + hex_val c) * 10 ^ length cs + nat_of_digits cs
      = a * 10 ^ length (c # cs) + nat_of_digits (c # cs)"
    using nat_of_digits_append [of "[c]" cs] by (simp add: nat_of_digits_single algebra_simps)
  finally show ?case .
qed

lemma skip_prefix_decimal: "skip_prefix 10 u = u"
  by (simp add: skip_prefix_def split: list.splits)

lemma split_sign_digits:
  "ds \<noteq> [] \<Longrightarrow> is_digit (hd ds) \<Longrightarrow> split_sign (ds @ r) = (False, ds @ r)"
  by (cases ds) (simp_all add: split_sign_def is_digit_props)

lemma split_sign_minus: "split_sign (CHR ''-'' # r) = (True, r)"
  by (simp add: split_sign_def)

lemma py_int_decimal:
  assumes "ds \<noteq> []" and "list_all is_digit ds"
  shows "py_int ds 10 = Inr (int (nat_of_digits ds))"
    and "py_int (CHR ''-'' # ds) 10 = Inr (- int (nat_of_digits ds))"
proof -
  have hd: "is_digit (hd ds)" and last: "is_digit (last ds)"
    using assms by (simp_all add: list_all_iff)
  have s1: "strip ds = ds"
    using assms(1) hd last by (intro strip_id) (simp_all add: is_digit_props)
  have minus: "\<not> is_space CHR ''-''"
    by (simp add: is_space_def)
  have s2: "strip (CHR ''-'' # ds) = CHR ''-'' # ds"
    using assms(1) last minus by (intro strip_id) (simp_all add: is_digit_props)
  have sc: "scan_digits 10 False 0 ds = Some (nat_of_digits ds)"
    using scan_digits_decimal [OF assms(2), of False 0] assms(1) by simp
  show "py_int ds 10 = Inr (int (nat_of_digits ds))"
    using split_sign_digits [OF assms(1) hd, of "[]"]
    by (simp add: py_int_def s1 skip_prefix_decimal sc)
  show "py_int (CHR ''-'' # ds) 10 = Inr (- int (nat_of_digits ds))"
    by (simp add: py_int_def s2 split_sign_minus skip_prefix_decimal sc)
qed

lemma pow10_neg: "pow10 (- int n) = 1 / 10 ^ n"
  by (simp add: pow10_def)

lemma takeWhile_digits:
  assumes "list_all is_digit ip" and "r = [] \<or> \<not> is_digit (hd r)"
  shows "takeWhile is_digit (ip @ r) = ip" and "dropWhile is_digit (ip @ r) = r"
proof -
  have all: "\<forall>x\<in>set ip. is_digit x" using assms(1) by (simp add: list_all_iff)
  have t: "takeWhile is_digit r = []" and d: "dropWhile is_digit r = r"
    using assms(2) by (cases r; simp)+
  show "takeWhile is_digit (ip @ r) = ip"
    using all t by (simp add: takeWhile_append2)
  show "dropWhile is_digit (ip @ r) = r"
    using all d by (simp add: dropWhile_append2)
qed

lemma parse_exponent_Nil: "parse_exponent [] = Some 0"
  by (simp add: parse_exponent_def)

lemma not_digit_dot: "\<not> is_digit CHR ''.''"
  by (simp add: is_digit_def digit_in_base_def digit_val_def)

lemma parse_decimal_unsigned:
  assumes "ip \<noteq> []" and "list_all is_digit ip" and "list_all is_digit fp"
  shows "parse_decimal (ip @ CHR ''.'' # fp)
           = Some (round_binary64 False (of_nat (nat_of_digits (ip @ fp)) / 10 ^ length fp))"
proof -
  have hd: "is_digit (hd ip)" using assms(1,2) by (simp add: list_all_iff)
  have ss: "split_sign (ip @ CHR ''.'' # fp) = (False, ip @ CHR ''.'' # fp)"
    using assms(1) hd by (rule split_sign_digits)
  have t1: "takeWhile is_digit (ip @ CHR ''.'' # fp) = ip"
    and d1: "dropWhile is_digit (ip @ CHR ''.'' # fp) = CHR ''.'' # fp"
    using takeWhile_digits [OF assms(2), of "CHR ''.'' # fp"] by (simp_all add: not_digit_dot)
  have t2: "takeWhile is_digit fp = fp" and d2: "dropWhile is_digit fp = []"
    using takeWhile_digits [OF assms(3), of "[]"] by simp_all
  show ?thesis
    using assms(1)
    by (simp add: parse_decimal_def ss t1 d1 t2 d2 parse_exponent_Nil pow10_neg Let_def)
qed

lemma parse_decimal_minus:
  assumes "ip \<noteq> []" and "list_all is_digit ip" and "list_all is_digit fp"
  shows "parse_decimal (CHR ''-'' # ip @ CHR ''.'' # fp)
           = Some (round_binary64 True (of_nat (nat_of_digits (ip @ fp)) / 10 ^ length fp))"
proof -
  have t1: "takeWhile is_digit (ip @ CHR ''.'' # fp) = ip"
    and d1: "dropWhile is_digit (ip @ CHR ''.'' # fp) = CHR ''.'' # fp"
    using takeWhile_digits [OF assms(2), of "CHR ''.'' # fp"] by (simp_all add: not_digit_dot)
  have t2: "takeWhile is_digit fp = fp" and d2: "dropWhile is_digit fp = []"
    using takeWhile_digits [OF assms(3), of "[]"] by simp_all
  show ?thesis
    using assms(1)
    by (simp add: parse_decimal_def split_sign_minus t1 d1 t2 d2 parse_exponent_Nil pow10_neg Let_def)
qed

lemma parse_decimal_integer:
  assumes "ip \<noteq> []" and "list_all is_digit ip"
  shows "parse_decimal ip = Some (round_binary64 False (of_nat (nat_of_digits ip)))"
proof -
  have hd: "is_digit (hd ip)" using assms(1,2) by (simp add: list_all_iff)
  have ss: "split_sign ip = (False, ip)"
    using split_sign_digits [OF assms(1) hd, of "[]"] by simp
  have t1: "takeWhile is_digit ip = ip" and d1: "dropWhile is_digit ip = []"
    using takeWhile_digits [OF assms(2), of "[]"] by simp_all
  show ?thesis
    using assms(1)
    by (simp add: parse_decimal_def ss t1 d1 parse_exponent_Nil pow10_def Let_def)
qed

lemma no_underscore_digits: "list_all is_digit ds \<Longrightarrow> CHR ''_'' \<notin> set ds"
  using is_digit_props(4) by (fastforce simp: list_all_iff)

lemma py_float_plain:
  assumes "s \<noteq> []" and "\<not> is_space (hd s)" and "\<not> is_space (last s)"
    and "CHR ''_'' \<notin> set s" and "parse_decimal s = Some x"
  shows "py_float s = Inr x"
proof -
  have "strip s = s" using assms(1-3) by (rule strip_id)
  moreover have "underscores_ok None s" using assms(4) by (intro underscores_ok_plain) simp_all
  moreover have "filter (\<lambda>c. c \<noteq> CHR ''_'') s = s" using assms(4) by (auto simp: filter_id_conv)
  ultimately show ?thesis using assms(5) by (simp add: py_float_def Let_def)
qed

lemma py_float_unsigned:
  assumes "ip \<noteq> []" and "list_all is_digit ip" and "fp \<noteq> []" and "list_all is_digit fp"
  shows "py_float (ip @ CHR ''.'' # fp)
           = Inr (round_binary64 False (of_nat (nat_of_digits (ip @ fp)) / 10 ^ length fp))"
proof (rule py_float_plain)
  show "ip @ CHR ''.'' # fp \<noteq> []" by simp
  have "is_digit (hd ip)" using assms(1,2) by (simp add: list_all_iff)
  then show "\<not> is_space (hd (ip @ CHR ''.'' # fp))" using assms(1) by (simp add: is_digit_props)
  have "is_digit (last fp)" using assms(3,4) by (simp add: list_all_iff)
  then show "\<not> is_space (last (ip @ CHR ''.'' # fp))" using assms(3) by (simp add: is_digit_props)
  show "CHR ''_'' \<notin> set (ip @ CHR ''.'' # fp)"
    using no_underscore_digits [OF assms(2)] no_underscore_digits [OF assms(4)] by simp
  show "parse_decimal (ip @ CHR ''.'' # fp)
      = Some (round_binary64 False (of_nat (nat_of_digits (ip @ fp)) / 10 ^ length fp))"
    using assms(1,2,4) by (rule parse_decimal_unsigned)
qed

lemma py_float_minus:
  assumes "ip \<noteq> []" and "list_all is_digit ip" and "fp \<noteq> []" and "list_all is_digit fp"
  shows "py_float (CHR ''-'' # ip @ CHR ''.'' # fp)
           = Inr (round_binary64 True (of_nat (nat_of_digits (ip @ fp)) / 10 ^ length fp))"
proof (rule py_float_plain)
  show "CHR ''-'' # ip @ CHR ''.'' # fp \<noteq> []" by simp
  show "\<not> is_space (hd (CHR ''-'' # ip @ CHR ''.'' # fp))" by (simp add: is_space_def)
  have "is_digit (last fp)" using assms(3,4) by (simp add: list_all_iff)
  then show "\<not> is_space (last (CHR ''-'' # ip @ CHR ''.'' # fp))"
    using assms(3) by (simp add: is_digit_props)
  show "CHR ''_'' \<notin> set (CHR ''-'' # ip @ CHR ''.'' # fp)"
    using no_underscore_digits [OF assms(2)] no_underscore_digits [OF assms(4)] by simp
  show "parse_decimal (CHR ''-'' # ip @ CHR ''.'' # fp)
      = Some (round_binary64 True (of_nat (nat_of_digits (ip @ fp)) / 10 ^ length fp))"
    using assms(1,2,4) by (rule parse_decimal_minus)
qed

lemma py_float_integer:
  assumes "ip \<noteq> []" and "list_all is_digit ip"
  shows "py_float ip = Inr (round_binary64 False (of_nat (nat_of_digits ip)))"
proof (rule py_float_plain)
  show "ip \<noteq> []" by (rule assms(1))
  have "is_digit (hd ip)" "is_digit (last ip)" using assms by (simp_all add: list_all_iff)
  then show "\<not> is_space (hd ip)" "\<not> is_space (last ip)" by (simp_all add: is_digit_props)
  show "CHR ''_'' \<notin> set ip" using assms(2) by (rule no_underscore_digits)
  show "parse_decimal ip = Some (round_binary64 False (of_nat (nat_of_digits ip)))"
    using assms by (rule parse_decimal_integer)
qed

subsection \<open>Formatting and reading back\<close>

lemma digit_char_props:
  assumes "d < 10"
  shows "is_digit (digit_char d)" and "hex_val (digit_char d) = d"
  using assms
  by (simp_all add: digit_char_def is_digit_def digit_in_base_def digit_val_def hex_val_def Let_def)

lemma digits_of_nat_props:
  "digits_of_nat n \<noteq> [] \<and> list_all is_digit (digits_of_nat n) \<and> nat_of_digits (digits_of_nat n) = n"
proof (induction n rule: digits_of_nat.induct)
  case (1 n)
  show ?case
  proof (cases "n < 10")
    case True
    then show ?thesis
      by (simp add: digits_of_nat.simps [of n] digit_char_props nat_of_digits_single
          del: digits_of_nat.simps)
  next
    case False
    have d: "n mod 10 < 10" by simp
    have eq: "digits_of_nat n = digits_of_nat (n div 10) @ [digit_char (n mod 10)]"
      using False by (simp add: digits_of_nat.simps [of n] del: digits_of_nat.simps)
    show ?thesis
      using 1 [OF False] digit_char_props [OF d]
      by (simp add: eq nat_of_digits_append nat_of_digits_single del: digits_of_nat.simps)
  qed
qed

lemma last_digits_props:
  "length (last_digits p n) = p \<and> list_all is_digit (last_digits p n)
     \<and> nat_of_digits (last_digits p n) = n mod 10 ^ p"
proof (induction p arbitrary: n)
  case 0
  then show ?case by (simp add: nat_of_digits_Nil)
next
  case (Suc k)
  have d: "n mod 10 < 10" by simp
  have "n mod (10 * 10 ^ k) = 10 * (n div 10 mod 10 ^ k) + n mod 10"
    by (rule mod_mult2_eq)
  then show ?case
    using Suc [of "n div 10"] digit_char_props [OF d]
    by (simp add: nat_of_digits_append nat_of_digits_single)
qed

lemma nat_of_digits_zeros: "nat_of_digits (replicate k CHR ''0'' @ ds) = nat_of_digits ds"
proof (induction k)
  case 0
  then show ?case by simp
next
  case (Suc k)
  have "nat_of_digits (CHR ''0'' # replicate k CHR ''0'' @ ds)
      = nat_of_digits [CHR ''0''] * 10 ^ length (replicate k CHR ''0'' @ ds)
        + nat_of_digits (replicate k CHR ''0'' @ ds)"
    using nat_of_digits_append [of "[CHR ''0'']" "replicate k CHR ''0'' @ ds"] by simp
  also have "nat_of_digits [CHR ''0''] = 0"
    by (simp add: nat_of_digits_single hex_val_def digit_val_def)
  finally show ?case using Suc by simp
qed

lemma is_digit_zero: "is_digit CHR ''0''"
  by (simp add: is_digit_def digit_in_base_def digit_val_def)

lemma py_float_format_f:
  assumes "0 < p" and "0 \<le> m"
  shows "py_float (format_f w p (Num s m))
           = Inr (round_binary64 s (of_int (round_half_even (m * 10 ^ p)) / 10 ^ p))"
proof -
  define n where "n = nat (round_half_even (m * 10 ^ p))"
  define ip where "ip = digits_of_nat (n div 10 ^ p)"
  define fp where "fp = last_digits p n"
  define sgn where "sgn = (if s then ''-'' else [])"
  define k where "k = w - (length sgn + length (ip @ CHR ''.'' # fp))"
  define zip where "zip = replicate k CHR ''0'' @ ip"
  have "0 \<le> m * 10 ^ p" using assms(2) by simp
  then have "0 \<le> round_half_even (m * 10 ^ p)" by (rule round_half_even_nonneg)
  then have n: "(of_nat n :: rat) = of_int (round_half_even (m * 10 ^ p))"
    by (simp add: n_def)
  have ip: "ip \<noteq> []" "list_all is_digit ip" "nat_of_digits ip = n div 10 ^ p"
    using digits_of_nat_props [of "n div 10 ^ p"] by (simp_all add: ip_def)
  have fp: "length fp = p" "list_all is_digit fp" "nat_of_digits fp = n mod 10 ^ p"
    using last_digits_props [of p n] by (simp_all add: fp_def)
  have fp_ne: "fp \<noteq> []" using fp(1) assms(1) by auto
  have zip: "zip \<noteq> []" "list_all is_digit zip" "nat_of_digits zip = n div 10 ^ p"
    using ip by (auto simp: zip_def nat_of_digits_zeros is_digit_zero list_all_iff)
  have val: "nat_of_digits (zip @ fp) = n"
    using div_mult_mod_eq [of n "10 ^ p"] by (simp add: nat_of_digits_append zip(3) fp(1,3))
  have fmt: "format_f w p (Num s m) = sgn @ zip @ CHR ''.'' # fp"
    using assms(1)
    by (simp add: format_f_def fixed_point_def Let_def n_def [symmetric] ip_def [symmetric]
        fp_def [symmetric] sgn_def [symmetric] k_def zip_def del: digits_of_nat.simps)
  have "py_float (sgn @ zip @ CHR ''.'' # fp)
      = Inr (round_binary64 s (of_int (round_half_even (m * 10 ^ p)) / 10 ^ p))"
  proof (cases s)
    case True
    then show ?thesis
      using py_float_minus [OF zip(1,2) fp_ne fp(2)]
      by (simp add: sgn_def val fp(1) n)
  next
    case False
    then show ?thesis
      using py_float_unsigned [OF zip(1,2) fp_ne fp(2)]
      by (simp add: sgn_def val fp(1) n)
  qed
  then show ?thesis by (simp only: fmt)
qed

end
